theory Spec2Isabelle
  imports Complex_Main "HOL-Library.AList" "HOL-Library.Char_ord" "HOL-Library.List_Lexorder"
begin

section \<open>The model\<close>

subsection \<open>JavaScript values\<close>

text \<open>
  A field that holds a string, \<^verbatim>\<open>null\<close> or \<^verbatim>\<open>undefined\<close>. Reading \<^verbatim>\<open>tag[1]\<close> of a
  one-element tag yields \<^verbatim>\<open>undefined\<close>; \<^verbatim>\<open>parseServiceEvent\<close> initialises
  \<^verbatim>\<open>service.id\<close> with \<^verbatim>\<open>null\<close>. Inside a template literal the three print differently.
\<close>

datatype jsstr = Undefined | Null | Str string

fun toString :: "jsstr \<Rightarrow> string" where
  "toString Undefined = ''undefined''"
| "toString Null = ''null''"
| "toString (Str s) = s"

text \<open>
  A JavaScript \<^verbatim>\<open>Map\<close> iterates in insertion order, and \<^verbatim>\<open>set\<close> on a key already present
  replaces the value in place. This is an association list with distinct keys:
  \<^verbatim>\<open>get\<close> is \<^const>\<open>map_of\<close>, \<^verbatim>\<open>set\<close> is \<^const>\<open>AList.update\<close>, \<^verbatim>\<open>values()\<close> is
  \<^term>\<open>map snd\<close>, \<^verbatim>\<open>size\<close> is \<^const>\<open>length\<close>.
\<close>

type_synonym ('k, 'v) js_map = "('k \<times> 'v) list"

subsection \<open>Service objects and the dedup step of \<^verbatim>\<open>findServices\<close> (query.js, lines 61-70)\<close>

text \<open>
  The service object built by \<^verbatim>\<open>parseServiceEvent\<close>. The dedup step reads \<^verbatim>\<open>pubkey\<close>,
  \<^verbatim>\<open>id\<close> (the value of the \<^verbatim>\<open>d\<close> tag) and \<^verbatim>\<open>createdAt\<close>; every other field is carried
  along unchanged, in the extension part of the record. \<^verbatim>\<open>createdAt\<close> is a number of
  seconds; the step only compares two of them with \<^verbatim>\<open>>\<close>.
\<close>

record service =
  pubkey :: string
  eventId :: string
  createdAt :: int
  svc_id :: jsstr

text \<open>The key \<^verbatim>\<open>`${svc.pubkey}:${svc.id}`\<close>.\<close>

definition svc_key :: "'a service_scheme \<Rightarrow> string" where
  "svc_key svc = pubkey svc @ '':'' @ toString (svc_id svc)"

text \<open>The identity the spec speaks of: owner and discriminator, for the one service kind.\<close>

definition identity :: "'a service_scheme \<Rightarrow> string \<times> jsstr" where
  "identity svc = (pubkey svc, svc_id svc)"

text \<open>
  One iteration of the loop over \<^verbatim>\<open>services\<close>:
  \<^verbatim>\<open>if (!existing || svc.createdAt > existing.createdAt) latest.set(key, svc)\<close>.
\<close>

definition latest_step ::
  "(string, 'a service_scheme) js_map \<Rightarrow> 'a service_scheme \<Rightarrow> (string, 'a service_scheme) js_map"
where
  "latest_step latest svc =
     (let key = svc_key svc in
      case map_of latest key of
        None \<Rightarrow> AList.update key svc latest
      | Some existing \<Rightarrow>
          if createdAt existing < createdAt svc then AList.update key svc latest else latest)"

text \<open>The loop from an empty map, then \<^verbatim>\<open>Array.from(latest.values())\<close>.\<close>

definition resolveLatest :: "'a service_scheme list \<Rightarrow> 'a service_scheme list" where
  "resolveLatest services = map snd (foldl latest_step [] services)"

text \<open>Three services for the examples: two versions of one listing and another listing.\<close>

definition svc_old :: service where
  "svc_old = \<lparr>pubkey = ''pk1'', eventId = ''e1'', createdAt = 100, svc_id = Str ''translate''\<rparr>"

definition svc_new :: service where
  "svc_new = \<lparr>pubkey = ''pk1'', eventId = ''e2'', createdAt = 200, svc_id = Str ''translate''\<rparr>"

definition svc_other :: service where
  "svc_other = \<lparr>pubkey = ''pk2'', eventId = ''e3'', createdAt = 150, svc_id = Str ''search''\<rparr>"





subsection \<open>Events\<close>

text \<open>
  A Nostr event as the library reads it. A tag is an array of strings; the tags are kept in
  order.
\<close>

record event =
  ev_id :: string
  ev_pubkey :: string
  created_at :: int
  kind :: int
  tags :: "string list list"
  content :: string
  sig :: string

text \<open>Reading \<^verbatim>\<open>tag[i]\<close>: \<^verbatim>\<open>undefined\<close> beyond the end of the array.\<close>

definition tag_at :: "string list \<Rightarrow> nat \<Rightarrow> jsstr" where
  "tag_at tag i = (if i < length tag then Str (tag ! i) else Undefined)"

subsection \<open>Constants (constants.js)\<close>

definition ATTESTATION_KIND :: int where
  "ATTESTATION_KIND = 1985"

definition WOT_NAMESPACE :: string where
  "WOT_NAMESPACE = ''ai.wot''"

text \<open>
  The own properties of the object literal \<^verbatim>\<open>TRUST_WEIGHTS\<close>. The four numbers are kept as
  rationals. In double arithmetic each of them times 10 is exactly 15, 10, 8 and 12, sums of
  such integers are exact, and the four doubles are ordered as the rationals are, so every
  comparison and every score below agrees with what the doubles give.
\<close>

definition TRUST_WEIGHTS :: "(string \<times> rat) list" where
  "TRUST_WEIGHTS =
     [(''service-quality'', 3 / 2),
      (''identity-continuity'', 1),
      (''general-trust'', 4 / 5),
      (''work-completed'', 6 / 5)]"

text \<open>
  \<^verbatim>\<open>TRUST_WEIGHTS\<close> is a plain object, so the lookup \<^verbatim>\<open>TRUST_WEIGHTS[type]\<close> also finds
  what the object inherits from \<^verbatim>\<open>Object.prototype\<close>: eleven functions and the accessor
  \<^verbatim>\<open>__proto__\<close>, which yields \<^verbatim>\<open>Object.prototype\<close> itself.
\<close>

definition Object_prototype :: "string list" where
  "Object_prototype =
     [''constructor'', ''__defineGetter__'', ''__defineSetter__'', ''hasOwnProperty'',
      ''__lookupGetter__'', ''__lookupSetter__'', ''isPrototypeOf'', ''propertyIsEnumerable'',
      ''toString'', ''valueOf'', ''__proto__'', ''toLocaleString'']"

subsection \<open>Numbers and the values a weight can take\<close>

text \<open>
  The value of the variable \<^verbatim>\<open>weight\<close>: a number, or the member of \<^verbatim>\<open>Object.prototype\<close> of
  the given name.
\<close>

datatype weight_val = Weight rat | Inherited string

datatype jsnum = Num rat | NaN

text \<open>
  The primitive a value turns into: a number stays; a built-in function prints its native
  source text, and \<^verbatim>\<open>Object.prototype\<close> prints as \<^verbatim>\<open>[object Object]\<close>.
\<close>

datatype prim = PNum rat | PStr string

fun toPrimitive :: "weight_val \<Rightarrow> prim" where
  "toPrimitive (Weight r) = PNum r"
| "toPrimitive (Inherited n) =
     PStr (if n = ''__proto__'' then ''[object Object]''
           else ''function '' @ (if n = ''constructor'' then ''Object'' else n) @
                ''() { [native code] }'')"

text \<open>
  \<^verbatim>\<open>a > b\<close>: numbers by value, two strings by code units; a number against one of these
  strings is a comparison with NaN, which is false.
\<close>

definition js_gt :: "weight_val \<Rightarrow> weight_val \<Rightarrow> bool" where
  "js_gt a b =
     (case (toPrimitive a, toPrimitive b) of
        (PNum x, PNum y) \<Rightarrow> y < x
      | (PStr s, PStr t) \<Rightarrow> t < s
      | _ \<Rightarrow> False)"

fun toNumber :: "weight_val \<Rightarrow> jsnum" where
  "toNumber (Weight r) = Num r"
| "toNumber (Inherited n) = NaN"

fun js_mul :: "jsnum \<Rightarrow> jsnum \<Rightarrow> jsnum" where
  "js_mul (Num a) (Num b) = Num (a * b)"
| "js_mul _ _ = NaN"

fun js_add :: "jsnum \<Rightarrow> jsnum \<Rightarrow> jsnum" where
  "js_add (Num a) (Num b) = Num (a + b)"
| "js_add _ _ = NaN"

text \<open>\<^verbatim>\<open>Math.round\<close>: the nearest integer, a half rounding up.\<close>

fun Math_round :: "jsnum \<Rightarrow> jsnum" where
  "Math_round (Num a) = Num (of_int \<lfloor>a + 1 / 2\<rfloor>)"
| "Math_round NaN = NaN"

subsection \<open>\<^verbatim>\<open>calculateTrustScore\<close> (trust.js)\<close>

text \<open>
  The label loop: the type is \<^verbatim>\<open>tag[1]\<close> of the first tag with \<^verbatim>\<open>tag[0] === 'l'\<close> and
  \<^verbatim>\<open>tag[2] === WOT_NAMESPACE\<close>, and \<^verbatim>\<open>'general-trust'\<close> when there is none. Such a tag has
  at least three elements, so \<^verbatim>\<open>tag[1]\<close> is a string.
\<close>

fun attestation_type :: "string list list \<Rightarrow> string" where
  "attestation_type [] = ''general-trust''"
| "attestation_type (tag # rest) =
     (if tag_at tag 0 = Str ''l'' \<and> tag_at tag 2 = Str WOT_NAMESPACE then tag ! 1
      else attestation_type rest)"

text \<open>\<^verbatim>\<open>TRUST_WEIGHTS[type]\<close>: an own property first, then the prototype; else \<^verbatim>\<open>undefined\<close>.\<close>

definition lookup_weight :: "string \<Rightarrow> weight_val option" where
  "lookup_weight t =
     (case map_of TRUST_WEIGHTS t of
        Some w \<Rightarrow> Some (Weight w)
      | None \<Rightarrow> if t \<in> set Object_prototype then Some (Inherited t) else None)"

text \<open>
  \<^verbatim>\<open>TRUST_WEIGHTS[type] || 0.8\<close>. Every value the lookup finds is truthy (a non-zero
  number, a function or an object), so the default applies to \<^verbatim>\<open>undefined\<close> only.
\<close>

definition weight_of :: "string \<Rightarrow> weight_val" where
  "weight_of t = (case lookup_weight t of Some w \<Rightarrow> w | None \<Rightarrow> Weight (4 / 5))"

text \<open>The value stored per attester: \<^verbatim>\<open>{ weight, type, createdAt }\<close>.\<close>

record best =
  weight :: weight_val
  atype :: string
  att_createdAt :: int

text \<open>One iteration of the loop over \<^verbatim>\<open>attestations\<close>.\<close>

definition attest_step ::
  "string \<Rightarrow> (string, best) js_map \<Rightarrow> 'a event_scheme \<Rightarrow> (string, best) js_map"
where
  "attest_step targetPubkey attesters event =
     (if ev_pubkey event = targetPubkey then attesters
      else
        let type = attestation_type (tags event);
            w = weight_of type;
            entry = \<lparr>weight = w, atype = type, att_createdAt = created_at event\<rparr>
        in case map_of attesters (ev_pubkey event) of
             None \<Rightarrow> AList.update (ev_pubkey event) entry attesters
           | Some existing \<Rightarrow>
               if js_gt w (weight existing) then AList.update (ev_pubkey event) entry attesters
               else attesters)"

text \<open>The second loop: \<^verbatim>\<open>score += att.weight * 10\<close> over the map, in its order.\<close>

definition sum_score :: "(string, best) js_map \<Rightarrow> jsnum" where
  "sum_score attesters =
     foldl (\<lambda>score (pk, att). js_add score (js_mul (toNumber (weight att)) (Num 10)))
       (Num 0) attesters"

record detail =
  d_pubkey :: string
  d_type :: string
  d_weight :: weight_val

record trust_score =
  score :: jsnum
  attesters :: nat
  details :: "detail list"

definition calculateTrustScore :: "'a event_scheme list \<Rightarrow> string \<Rightarrow> trust_score" where
  "calculateTrustScore attestations targetPubkey =
     (let attesters = foldl (attest_step targetPubkey) [] attestations
      in \<lparr>score = Math_round (sum_score attesters),
          attesters = length attesters,
          details = map (\<lambda>(pk, att). \<lparr>d_pubkey = pk, d_type = atype att, d_weight = weight att\<rparr>)
                      attesters\<rparr>)"

text \<open>An attestation event shaped as the ones of test.js.\<close>

definition attestation :: "string \<Rightarrow> string \<Rightarrow> string \<Rightarrow> event" where
  "attestation attester type target =
     \<lparr>ev_id = [], ev_pubkey = attester, created_at = 1706832000, kind = ATTESTATION_KIND,
      tags = [[''L'', WOT_NAMESPACE], [''l'', type, WOT_NAMESPACE], [''p'', target]],
      content = [], sig = []\<rparr>"

subsection \<open>Relays and sockets (relay.js)\<close>

text \<open>
  The value of \<^verbatim>\<open>msg[3]\<close> of an \<open>OK\<close> message, by what \<^verbatim>\<open>new Error(msg[3] || 'Rejected by relay')\<close>
  makes of it. \<open>Missing\<close>: it is \<^verbatim>\<open>undefined\<close> or another falsy value (\<^verbatim>\<open>null\<close>, \<^verbatim>\<open>false\<close>,
  \<^verbatim>\<open>0\<close>, the empty string), so the default text is used. \<open>Text\<close>: it is truthy and converts
  to the given string (a non-empty string to itself, \<^verbatim>\<open>5\<close> to \<^verbatim>\<open>"5"\<close>, \<^verbatim>\<open>[]\<close> to the empty
  string, \<^verbatim>\<open>{}\<close> to \<^verbatim>\<open>"[object Object]"\<close>). \<open>Unprintable\<close>: it is truthy and its conversion
  to a string throws a \<^verbatim>\<open>TypeError\<close>, as for the parsed object \<^verbatim>\<open>{"toString": 1}\<close>, whose own
  property hides \<^verbatim>\<open>Object.prototype.toString\<close> and is not callable.
\<close>

datatype ack_reason = Missing | Text string | Unprintable

text \<open>
  What a relay sends, after \<^verbatim>\<open>JSON.parse\<close>: the arrays the handlers look at, by their first
  element. In \<open>OK\<close> the second field is the event id the relay answers for, the third the
  truthiness of \<^verbatim>\<open>msg[2]\<close> and the fourth the value of \<^verbatim>\<open>msg[3]\<close>. \<open>NOTICE\<close> stands for every
  other parsed message.
\<close>

datatype relay_msg =
    EVENT string event
  | EOSE string
  | OK string bool ack_reason
  | NOTICE string

text \<open>
  What a socket delivers to its listeners: a message, a message that does not parse (the
  handlers swallow the exception), an \<^verbatim>\<open>error\<close> event with its message, or \<^verbatim>\<open>close\<close>.
\<close>

datatype ws_event = Message relay_msg | Unparsable | SocketError string | SocketClose

text \<open>
  How one connection attempt goes. It times out, fails with an error, or opens; an open
  socket may throw when \<^verbatim>\<open>send\<close> is called (the first field), and otherwise delivers, in
  reaction to the request sent, a sequence of events to the listeners.
\<close>

datatype 'q dial =
    DialTimeout
  | DialError string
  | DialOpen "string option" "'q \<Rightarrow> ws_event list"

text \<open>
  A relay of the list handed to the library, with its behaviour in this call. \<open>rand\<close> is the
  string \<^verbatim>\<open>Math.random().toString(36).slice(2, 10)\<close> evaluates to when this relay is queried.
\<close>

record 'q relay =
  url :: string
  rand :: string
  dial :: "'q dial"

text \<open>A settled promise; a rejection is kept as the \<^verbatim>\<open>message\<close> of its reason.\<close>

datatype 'a settled = Fulfilled 'a | Rejected string

text \<open>\<^verbatim>\<open>connectRelay\<close>: the socket, or the error the promise rejects with.\<close>

definition connectRelay :: "'q relay \<Rightarrow> string + (string option \<times> ('q \<Rightarrow> ws_event list))" where
  "connectRelay r =
     (case dial r of
        DialTimeout \<Rightarrow> Inl (''Connection to '' @ url r @ '' timed out'')
      | DialError err \<Rightarrow> Inl err
      | DialOpen send_error inbound \<Rightarrow> Inr (send_error, inbound))"

text \<open>The connection attempt succeeds.\<close>

definition opens :: "'q relay \<Rightarrow> bool" where
  "opens r = (case connectRelay r of Inl e \<Rightarrow> False | Inr socket \<Rightarrow> True)"

subsection \<open>\<^verbatim>\<open>queryRelay\<close> and \<^verbatim>\<open>queryRelays\<close>\<close>

text \<open>
  The state of one query: the array \<^verbatim>\<open>events\<close>, whether the timer is still armed, and
  whether the promise has been resolved.
\<close>

record qstate =
  q_events :: "event list"
  armed :: bool
  resolved :: bool

text \<open>
  The listeners of \<^verbatim>\<open>queryRelay\<close>. A matching \<open>EVENT\<close> is pushed when its signature
  verifies; a matching \<open>EOSE\<close>, an error and a close clear the timer and resolve. The
  listeners stay registered, and the promise was resolved with the array itself, so a
  matching event that arrives after the resolution and before \<^verbatim>\<open>queryRelays\<close> reads the
  array is part of it.
\<close>

fun query_on :: "(event \<Rightarrow> bool) \<Rightarrow> string \<Rightarrow> qstate \<Rightarrow> ws_event \<Rightarrow> qstate" where
  "query_on verifyEvent subId st (Message (EVENT sid event)) =
     (if sid = subId
      then (if \<not> verifyEvent event then st else st\<lparr>q_events := q_events st @ [event]\<rparr>)
      else st)"
| "query_on verifyEvent subId st (Message (EOSE sid)) =
     (if sid = subId then st\<lparr>armed := False, resolved := True\<rparr> else st)"
| "query_on verifyEvent subId st (Message (OK i accepted reason)) = st"
| "query_on verifyEvent subId st (Message (NOTICE text)) = st"
| "query_on verifyEvent subId st Unparsable = st"
| "query_on verifyEvent subId st (SocketError err) = st\<lparr>armed := False, resolved := True\<rparr>"
| "query_on verifyEvent subId st SocketClose = st\<lparr>armed := False, resolved := True\<rparr>"

text \<open>The timer, when it has not been cleared: it resolves with what was collected.\<close>

definition query_timer :: "qstate \<Rightarrow> qstate" where
  "query_timer st = (if armed st then st\<lparr>armed := False, resolved := True\<rparr> else st)"

text \<open>
  \<^verbatim>\<open>queryRelay\<close>. A connection failure is caught and gives the empty array. On an open
  socket the request \<^verbatim>\<open>['REQ', subId, filter]\<close> is sent (\<open>flt\<close> is the filter); a throwing \<^verbatim>\<open>send\<close> rejects the
  promise.
\<close>

definition queryRelay ::
  "(event \<Rightarrow> bool) \<Rightarrow> 'f \<Rightarrow> (string \<times> 'f) relay \<Rightarrow> event list settled"
where
  "queryRelay verifyEvent flt r =
     (case connectRelay r of
        Inl e \<Rightarrow> Fulfilled []
      | Inr (send_error, inbound) \<Rightarrow>
          (let subId = ''q_'' @ rand r in
           case send_error of
             Some err \<Rightarrow> Rejected err
           | None \<Rightarrow>
               Fulfilled (q_events (query_timer
                 (foldl (query_on verifyEvent subId)
                    \<lparr>q_events = [], armed = True, resolved = False\<rparr>
                    (inbound (subId, flt)))))))"

text \<open>The merge loop: \<^verbatim>\<open>seen\<close> and \<^verbatim>\<open>events\<close>, one event at a time.\<close>

fun merge_step :: "string set \<times> event list \<Rightarrow> event \<Rightarrow> string set \<times> event list" where
  "merge_step (seen, events) event =
     (if ev_id event \<notin> seen then (insert (ev_id event) seen, events @ [event])
      else (seen, events))"

fun merge_result ::
  "string set \<times> event list \<Rightarrow> event list settled \<Rightarrow> string set \<times> event list"
where
  "merge_result st (Fulfilled value) = foldl merge_step st value"
| "merge_result st (Rejected reason) = st"

definition queryRelays ::
  "(event \<Rightarrow> bool) \<Rightarrow> 'f \<Rightarrow> (string \<times> 'f) relay list \<Rightarrow> event list"
where
  "queryRelays verifyEvent flt relays =
     snd (foldl merge_result ({}, []) (map (queryRelay verifyEvent flt) relays))"

text \<open>What a relay adds to the merge: its array, nothing when its promise was rejected.\<close>

definition returned :: "(event \<Rightarrow> bool) \<Rightarrow> 'f \<Rightarrow> (string \<times> 'f) relay \<Rightarrow> event list" where
  "returned verifyEvent flt r =
     (case queryRelay verifyEvent flt r of Fulfilled value \<Rightarrow> value | Rejected reason \<Rightarrow> [])"

text \<open>The sets of a list are pairwise disjoint.\<close>

fun pairwise_disjoint :: "'a set list \<Rightarrow> bool" where
  "pairwise_disjoint [] = True"
| "pairwise_disjoint (A # As) = (A \<inter> \<Union> (set As) = {} \<and> pairwise_disjoint As)"

subsection \<open>\<^verbatim>\<open>publishToRelays\<close>\<close>

text \<open>
  The message of the error built from \<^verbatim>\<open>msg[3] || 'Rejected by relay'\<close>; \<open>None\<close> when
  \<^verbatim>\<open>new Error\<close> throws.
\<close>

fun reject_reason :: "ack_reason \<Rightarrow> string option" where
  "reject_reason Missing = Some ''Rejected by relay''"
| "reject_reason (Text text) = Some text"
| "reject_reason Unprintable = None"

text \<open>
  The state of one relay's publish: how the promise was settled (\<open>None\<close> while it is
  pending) and whether the timer is still armed.
\<close>

record pstate =
  outcome :: "string settled option"
  timer :: bool

text \<open>\<^verbatim>\<open>resolve\<close> and \<^verbatim>\<open>reject\<close>: the first settlement stands.\<close>

definition settle :: "string settled \<Rightarrow> pstate \<Rightarrow> pstate" where
  "settle result st = (case outcome st of None \<Rightarrow> st\<lparr>outcome := Some result\<rparr> | Some first \<Rightarrow> st)"

text \<open>
  The message listener. An \<open>OK\<close> message, whatever event id it carries, first clears the
  timer and closes the socket. Then it resolves with \<^verbatim>\<open>{ relay: url, ok: true }\<close> (kept as
  the url) when \<^verbatim>\<open>msg[2]\<close> is truthy, and otherwise rejects with the error built from
  \<^verbatim>\<open>msg[3]\<close>. When building that error throws, the surrounding \<^verbatim>\<open>try\<close> swallows the
  exception before \<^verbatim>\<open>reject\<close> is called: the promise stays pending, with its timer cleared.
\<close>

fun publish_msg :: "string \<Rightarrow> pstate \<Rightarrow> relay_msg \<Rightarrow> pstate" where
  "publish_msg relay_url st (OK i accepted reason) =
     (let st' = st\<lparr>timer := False\<rparr> in
      if accepted then settle (Fulfilled relay_url) st'
      else case reject_reason reason of
             Some text \<Rightarrow> settle (Rejected text) st'
           | None \<Rightarrow> st')"
| "publish_msg relay_url st (EVENT sid event) = st"
| "publish_msg relay_url st (EOSE sid) = st"
| "publish_msg relay_url st (NOTICE text) = st"

text \<open>
  The listeners of one publish. The \<^verbatim>\<open>error\<close> listener clears the timer and rejects; there
  is no listener for \<^verbatim>\<open>close\<close>.
\<close>

fun publish_on :: "string \<Rightarrow> pstate \<Rightarrow> ws_event \<Rightarrow> pstate" where
  "publish_on relay_url st (Message msg) = publish_msg relay_url st msg"
| "publish_on relay_url st Unparsable = st"
| "publish_on relay_url st (SocketError err) = settle (Rejected err) (st\<lparr>timer := False\<rparr>)"
| "publish_on relay_url st SocketClose = st"

text \<open>The timer, when it has not been cleared: it rejects with the timeout error.\<close>

definition publish_timer :: "string \<Rightarrow> pstate \<Rightarrow> pstate" where
  "publish_timer relay_url st =
     (if timer st
      then settle (Rejected (''Publish to '' @ relay_url @ '' timed out'')) (st\<lparr>timer := False\<rparr>)
      else st)"

text \<open>
  One relay's promise: rejected with the connection error or with the error of a throwing
  \<^verbatim>\<open>send\<close>; otherwise what the listeners and the timer make of the events the socket
  delivers (those before the deadline while the timer is armed, all of them once it is
  cleared). The result is \<open>None\<close> when the promise is never settled.
\<close>

definition publish_one :: "event \<Rightarrow> event relay \<Rightarrow> string settled option" where
  "publish_one event r =
     (case connectRelay r of
        Inl e \<Rightarrow> Some (Rejected e)
      | Inr (send_error, inbound) \<Rightarrow>
          (case send_error of
             Some err \<Rightarrow> Some (Rejected err)
           | None \<Rightarrow>
               outcome (publish_timer (url r)
                 (foldl (publish_on (url r)) \<lparr>outcome = None, timer = True\<rparr> (inbound event)))))"

record publish_outcome =
  successes :: nat
  failures :: "string list"
  total :: nat

fun is_fulfilled :: "'a settled \<Rightarrow> bool" where
  "is_fulfilled (Fulfilled value) = True"
| "is_fulfilled (Rejected reason) = False"

fun reasons :: "'a settled list \<Rightarrow> string list" where
  "reasons [] = []"
| "reasons (Fulfilled value # rs) = reasons rs"
| "reasons (Rejected reason # rs) = reason # reasons rs"

text \<open>
  \<^verbatim>\<open>Promise.allSettled\<close>: the results in the order of the promises, once every promise is
  settled; \<open>None\<close> when one of them never is.
\<close>

fun allSettled :: "'a settled option list \<Rightarrow> 'a settled list option" where
  "allSettled [] = Some []"
| "allSettled (None # ps) = None"
| "allSettled (Some result # ps) = map_option ((#) result) (allSettled ps)"

text \<open>\<^verbatim>\<open>publishToRelays\<close>; \<open>None\<close> when the awaited promise is never settled and the call never returns.\<close>

definition publishToRelays :: "event \<Rightarrow> event relay list \<Rightarrow> publish_outcome option" where
  "publishToRelays event relays =
     (case allSettled (map (publish_one event) relays) of
        None \<Rightarrow> None
      | Some results \<Rightarrow>
          Some \<lparr>successes = length (filter is_fulfilled results),
                failures = reasons results,
                total = length relays\<rparr>)"

text \<open>The socket events on which the listeners of a publish act: an \<open>OK\<close> message and an error.\<close>

fun ok_or_error :: "ws_event \<Rightarrow> bool" where
  "ok_or_error (Message (OK i accepted reason)) = True"
| "ok_or_error (SocketError err) = True"
| "ok_or_error ev = False"

text \<open>An \<open>OK\<close> message that rejects with a reason that cannot be turned into a string.\<close>

fun unprintable_reject :: "ws_event \<Rightarrow> bool" where
  "unprintable_reject (Message (OK i accepted reason)) = (\<not> accepted \<and> reason = Unprintable)"
| "unprintable_reject ev = False"

text \<open>
  Relays for the examples: one that accepts the event it is sent, one that rejects it with
  a reason, one that opens and stays silent, one that cannot be reached, one that greets
  and then acknowledges some other event, and one that rejects the event with the reason
  \<^verbatim>\<open>{"toString": 1}\<close>.
\<close>

definition relay_accepting :: "string \<Rightarrow> event relay" where
  "relay_accepting u =
     \<lparr>url = u, rand = [], dial = DialOpen None (\<lambda>e. [Message (OK (ev_id e) True Missing)])\<rparr>"

definition relay_rejecting :: "string \<Rightarrow> string \<Rightarrow> event relay" where
  "relay_rejecting u why =
     \<lparr>url = u, rand = [], dial = DialOpen None (\<lambda>e. [Message (OK (ev_id e) False (Text why))])\<rparr>"

definition relay_silent :: "string \<Rightarrow> event relay" where
  "relay_silent u = \<lparr>url = u, rand = [], dial = DialOpen None (\<lambda>e. [])\<rparr>"

definition relay_down :: "string \<Rightarrow> 'q relay" where
  "relay_down u = \<lparr>url = u, rand = [], dial = DialError ''connect ECONNREFUSED''\<rparr>"

definition relay_acking_other :: "string \<Rightarrow> string \<Rightarrow> event relay" where
  "relay_acking_other u other =
     \<lparr>url = u, rand = [],
      dial = DialOpen None (\<lambda>e. [Message (NOTICE ''welcome''), Message (OK other True Missing)])\<rparr>"

definition relay_unprintable :: "string \<Rightarrow> event relay" where
  "relay_unprintable u =
     \<lparr>url = u, rand = [], dial = DialOpen None (\<lambda>e. [Message (OK (ev_id e) False Unprintable)])\<rparr>"

text \<open>A relay that answers a query with the given events and then ends the subscription.\<close>

definition relay_serving :: "string \<Rightarrow> event list \<Rightarrow> (string \<times> 'f) relay" where
  "relay_serving u es =
     \<lparr>url = u, rand = ''k3x9'',
      dial = DialOpen None (\<lambda>(subId, flt). map (\<lambda>e. Message (EVENT subId e)) es @ [Message (EOSE subId)])\<rparr>"

definition sample_event :: "string \<Rightarrow> event" where
  "sample_event i = \<lparr>ev_id = i, ev_pubkey = ''pk1'', created_at = 1706832000, kind = 38990,
     tags = [[''d'', ''translate'']], content = [], sig = []\<rparr>"

subsection \<open>Loop invariants\<close>

text \<open>
  The invariant of the dedup loop: after the services \<open>seen\<close>, the map has distinct keys, a key is present
  exactly when some seen service has it, and the value under a key is a seen service with
  that key whose \<open>createdAt\<close> no seen service with that key exceeds.
\<close>

definition latest_inv :: "'a service_scheme list \<Rightarrow> (string, 'a service_scheme) js_map \<Rightarrow> bool" where
  "latest_inv seen m \<longleftrightarrow>
     distinct (map fst m) \<and>
     (\<forall>k. case map_of m k of
            None \<Rightarrow> k \<notin> svc_key ` set seen
          | Some v \<Rightarrow> svc_key v = k \<and> v \<in> set seen \<and>
                      (\<forall>s\<in>set seen. svc_key s = k \<longrightarrow> createdAt s \<le> createdAt v))"

text \<open>
  The invariant of the merge loop: \<^verbatim>\<open>seen\<close> holds the ids of \<^verbatim>\<open>events\<close>, which are pairwise
  different.
\<close>

definition merge_inv :: "string set \<times> event list \<Rightarrow> bool" where
  "merge_inv st \<longleftrightarrow> fst st = ev_id ` set (snd st) \<and> distinct (map ev_id (snd st))"

subsection \<open>\<^verbatim>\<open>fetchAttestations\<close> and \<^verbatim>\<open>enrichWithTrust\<close> (trust.js)\<close>

text \<open>A NIP-01 filter: the kinds, the authors and the tag queries such as \<^verbatim>\<open>'#p'\<close>.\<close>

record nostr_filter =
  kinds :: "int list"
  authors :: "string list"
  tag_queries :: "(string \<times> string list) list"

type_synonym query_relay = "(string \<times> nostr_filter) relay"

definition fetchAttestations ::
  "(event \<Rightarrow> bool) \<Rightarrow> string \<Rightarrow> query_relay list \<Rightarrow> event list"
where
  "fetchAttestations verifyEvent pk relays =
     (let flt = \<lparr>kinds = [ATTESTATION_KIND], authors = [],
                 tag_queries = [(''#L'', [WOT_NAMESPACE]), (''#p'', [pk])]\<rparr>;
          evs = queryRelays verifyEvent flt relays
      in filter verifyEvent evs)"

text \<open>\<^verbatim>\<open>[...new Set(xs)]\<close>: the distinct elements, each at its first occurrence.\<close>

definition uniq :: "'a list \<Rightarrow> 'a list" where
  "uniq xs = foldl (\<lambda>acc x. if x \<in> set acc then acc else acc @ [x]) [] xs"

text \<open>The score used when \<^verbatim>\<open>trustMap\<close> has no entry: \<^verbatim>\<open>{ score: 0, attesters: 0, details: [] }\<close>.\<close>

definition zero_trust :: trust_score where
  "zero_trust = \<lparr>score = Num 0, attesters = 0, details = []\<rparr>"

text \<open>A service with \<^verbatim>\<open>trust\<close> and \<^verbatim>\<open>trustScore\<close> attached: \<^verbatim>\<open>{ ...s, trust, trustScore }\<close>.\<close>

record 'a enriched =
  base :: "'a service_scheme"
  trust :: trust_score
  trustScore :: jsnum

text \<open>
  One task of the \<^verbatim>\<open>Promise.allSettled\<close> in \<^verbatim>\<open>enrichWithTrust\<close>: when the fetch is fulfilled
  the score is stored in \<^verbatim>\<open>trustMap\<close>; when it is rejected the task is rejected and the map
  is left as it was. The tasks write different keys, so the order in which they finish
  does not change what \<^verbatim>\<open>get\<close> returns afterwards.
\<close>

definition trust_task ::
  "(string \<Rightarrow> event list settled) \<Rightarrow> (string, trust_score) js_map \<Rightarrow> string \<Rightarrow>
   (string, trust_score) js_map"
where
  "trust_task fetch trustMap pk =
     (case fetch pk of
        Fulfilled attestations \<Rightarrow> AList.update pk (calculateTrustScore attestations pk) trustMap
      | Rejected reason \<Rightarrow> trustMap)"

text \<open>
  \<^verbatim>\<open>enrichWithTrust\<close> over the outcome of each owner's fetch: the distinct owners, the
  tasks, then every service with the score found for its owner or the zero score.
\<close>

definition enrich_settled ::
  "(string \<Rightarrow> event list settled) \<Rightarrow> 'a service_scheme list \<Rightarrow> 'a enriched list"
where
  "enrich_settled fetch services =
     (let pubkeys = uniq (map pubkey services);
          trustMap = foldl (trust_task fetch) [] pubkeys
      in map (\<lambda>s. let t = (case map_of trustMap (pubkey s) of Some found \<Rightarrow> found
                                                               | None \<Rightarrow> zero_trust)
                    in \<lparr>base = s, trust = t, trustScore = score t\<rparr>)
           services)"

text \<open>
  \<^verbatim>\<open>enrichWithTrust\<close>. \<open>net pk\<close> is the list \<^verbatim>\<open>relays\<close> as the relays behave during the fetch
  for the owner \<open>pk\<close>. \<^verbatim>\<open>fetchAttestations\<close> rests on \<^verbatim>\<open>queryRelays\<close>, whose promise is never
  rejected.
\<close>

definition enrichWithTrust ::
  "(event \<Rightarrow> bool) \<Rightarrow> (string \<Rightarrow> query_relay list) \<Rightarrow> 'a service_scheme list \<Rightarrow> 'a enriched list"
where
  "enrichWithTrust verifyEvent net services =
     enrich_settled (\<lambda>pk. Fulfilled (fetchAttestations verifyEvent pk (net pk))) services"

text \<open>
  A network for the examples: the relays cannot be reached while the attestations about
  \<open>pk1\<close> are fetched; for \<open>pk2\<close> the second relay serves one attestation.
\<close>

definition example_net :: "string \<Rightarrow> query_relay list" where
  "example_net pk =
     (if pk = ''pk2''
      then [relay_down ''wss://a'',
            relay_serving ''wss://b'' [attestation ''a1'' ''service-quality'' ''pk2'']]
      else [relay_down ''wss://a'', relay_down ''wss://b''])"

text \<open>
  The weight table as the documentation gives it: the four listed types, and 0.8 for every
  other type.
\<close>

definition table_weight :: "string \<Rightarrow> rat" where
  "table_weight t = (case map_of TRUST_WEIGHTS t of Some w \<Rightarrow> w | None \<Rightarrow> 4 / 5)"

text \<open>A claim type that is not the name of a member of \<^verbatim>\<open>Object.prototype\<close>.\<close>

definition plain_type :: "string \<Rightarrow> bool" where
  "plain_type t \<longleftrightarrow> t \<notin> set Object_prototype"

text \<open>
  The invariant of the loop of \<^verbatim>\<open>calculateTrustScore\<close> over attestations with plain types:
  the keys are distinct and never the target; an attester other than the target has an
  entry as soon as one of its attestations was seen; and the entry holds the type of one
  of the attester's attestations, with its table weight, which no attestation of that
  attester exceeds.
\<close>

definition att_inv :: "string \<Rightarrow> 'a event_scheme list \<Rightarrow> (string, best) js_map \<Rightarrow> bool" where
  "att_inv target seen m \<longleftrightarrow>
     distinct (map fst m) \<and>
     (\<forall>k. case map_of m k of
            None \<Rightarrow> (\<forall>e\<in>set seen. ev_pubkey e = k \<longrightarrow> k = target)
          | Some b \<Rightarrow>
              k \<noteq> target \<and> weight b = Weight (table_weight (atype b)) \<and>
              (\<exists>e\<in>set seen. ev_pubkey e = k \<and> attestation_type (tags e) = atype b) \<and>
              (\<forall>e\<in>set seen. ev_pubkey e = k \<longrightarrow>
                 table_weight (attestation_type (tags e)) \<le> table_weight (atype b)))"

text \<open>The greatest table weight among the attestations of one attester.\<close>

definition best_weight :: "'a event_scheme list \<Rightarrow> string \<Rightarrow> rat" where
  "best_weight es a =
     Max ((\<lambda>e. table_weight (attestation_type (tags e))) ` {e \<in> set es. ev_pubkey e = a})"

section \<open>Properties\<close>

subsection \<open>Insertion-ordered maps\<close>

lemma update_fresh: "k \<notin> fst ` set al \<Longrightarrow> AList.update k v al = al @ [(k, v)]"
  by (induction al) auto

subsection \<open>Latest record per identity\<close>

lemma latest_inv_Nil: "latest_inv [] []"
  by (simp add: latest_inv_def)

lemma latest_inv_step:
  assumes "latest_inv seen m"
  shows "latest_inv (seen @ [s]) (latest_step m s)"
proof -
  from assms have d: "distinct (map fst m)"
    and i: "\<And>k. case map_of m k of
            None \<Rightarrow> k \<notin> svc_key ` set seen
          | Some v \<Rightarrow> svc_key v = k \<and> v \<in> set seen \<and>
                      (\<forall>s\<in>set seen. svc_key s = k \<longrightarrow> createdAt s \<le> createdAt v)"
    by (auto simp: latest_inv_def)
  have d': "distinct (map fst (latest_step m s))"
    using d by (auto simp: latest_step_def Let_def AList.distinct_update split: option.splits)
  have "case map_of (latest_step m s) k of
            None \<Rightarrow> k \<notin> svc_key ` set (seen @ [s])
          | Some v \<Rightarrow> svc_key v = k \<and> v \<in> set (seen @ [s]) \<and>
                      (\<forall>t\<in>set (seen @ [s]). svc_key t = k \<longrightarrow> createdAt t \<le> createdAt v)" for k
  proof (cases "k = svc_key s")
    case False
    have "map_of (latest_step m s) k = map_of m k"
      using False by (auto simp: latest_step_def Let_def AList.update_conv' split: option.splits)
    with i[of k] False show ?thesis
      by (auto split: option.splits)
  next
    case True
    show ?thesis
    proof (cases "map_of m k")
      case None
      with True have "map_of (latest_step m s) k = Some s"
        by (simp add: latest_step_def Let_def AList.update_conv')
      with i[of k] None True show ?thesis
        by (auto simp: image_iff)
    next
      case (Some ex)
      show ?thesis
      proof (cases "createdAt ex < createdAt s")
        case newer: True
        with True Some have "map_of (latest_step m s) k = Some s"
          by (simp add: latest_step_def Let_def AList.update_conv')
        with i[of k] Some True newer show ?thesis
          by fastforce
      next
        case older: False
        with True Some have "map_of (latest_step m s) k = Some ex"
          by (simp add: latest_step_def Let_def)
        with i[of k] Some True older show ?thesis
          by fastforce
      qed
    qed
  qed
  with d' show ?thesis
    by (simp add: latest_inv_def)
qed

lemma latest_inv_foldl:
  "latest_inv seen m \<Longrightarrow> latest_inv (seen @ xs) (foldl latest_step m xs)"
proof (induction xs arbitrary: seen m)
  case Nil
  then show ?case by simp
next
  case (Cons x xs)
  from Cons.IH[OF latest_inv_step[OF Cons.prems, of x]] show ?case
    by simp
qed

lemma latest_inv_final: "latest_inv xs (foldl latest_step [] xs)"
  using latest_inv_foldl[OF latest_inv_Nil, of xs] by simp

lemma latest_inv_entry:
  assumes "latest_inv seen m" and "(k, v) \<in> set m"
  shows "svc_key v = k" and "v \<in> set seen"
    and "\<And>s. s \<in> set seen \<Longrightarrow> svc_key s = k \<Longrightarrow> createdAt s \<le> createdAt v"
proof -
  from assms have "map_of m k = Some v"
    by (simp add: latest_inv_def)
  moreover from assms(1) have "case map_of m k of
            None \<Rightarrow> k \<notin> svc_key ` set seen
          | Some v \<Rightarrow> svc_key v = k \<and> v \<in> set seen \<and>
                      (\<forall>s\<in>set seen. svc_key s = k \<longrightarrow> createdAt s \<le> createdAt v)"
    by (simp add: latest_inv_def)
  ultimately show "svc_key v = k" and "v \<in> set seen"
    and "\<And>s. s \<in> set seen \<Longrightarrow> svc_key s = k \<Longrightarrow> createdAt s \<le> createdAt v"
    by auto
qed

lemma latest_inv_keys:
  assumes "latest_inv seen m"
  shows "map svc_key (map snd m) = map fst m"
  using latest_inv_entry(1)[OF assms] by (auto simp: map_eq_conv)




lemma resolveLatest_keys:
  "map svc_key (resolveLatest xs) = map fst (foldl latest_step [] xs)"
  unfolding resolveLatest_def by (rule latest_inv_keys[OF latest_inv_final])

lemma resolveLatest_distinct_keys: "distinct (map svc_key (resolveLatest xs))"
  using latest_inv_final[of xs] by (simp only: resolveLatest_keys latest_inv_def)


lemma resolveLatest_example:
  "resolveLatest [svc_old, svc_other, svc_new] = [svc_new, svc_other]"
  by (simp add: resolveLatest_def latest_step_def svc_key_def svc_old_def svc_new_def svc_other_def)



text \<open>The condition on the pubkeys is needed as well: a colon in a pubkey makes two identities share a key.\<close>

lemma svc_key_colon_collision:
  "svc_key \<lparr>pubkey = ''a:b'', eventId = [], createdAt = 0, svc_id = Str ''c''\<rparr> =
   svc_key \<lparr>pubkey = ''a'', eventId = [], createdAt = 0, svc_id = Str ''b:c''\<rparr>"
  by (simp add: svc_key_def)





subsection \<open>Idempotence\<close>

lemma foldl_latest_fresh:
  "distinct (map svc_key xs) \<Longrightarrow> svc_key ` set xs \<inter> fst ` set m = {} \<Longrightarrow>
   foldl latest_step m xs = m @ map (\<lambda>s. (svc_key s, s)) xs"
proof (induction xs arbitrary: m)
  case Nil
  then show ?case by simp
next
  case (Cons x xs)
  from Cons.prems have fresh: "svc_key x \<notin> fst ` set m"
    by auto
  then have none: "map_of m (svc_key x) = None"
    by (simp add: map_of_eq_None_iff)
  have step: "latest_step m x = m @ [(svc_key x, x)]"
    by (simp add: latest_step_def none update_fresh[OF fresh])
  from Cons.prems have "distinct (map svc_key xs)"
    and "svc_key ` set xs \<inter> fst ` set (m @ [(svc_key x, x)]) = {}"
    by auto
  from Cons.IH[OF this] step show ?case
    by simp
qed

lemma resolveLatest_distinct_id:
  "distinct (map svc_key xs) \<Longrightarrow> resolveLatest xs = xs"
  using foldl_latest_fresh[of xs "[]"] by (simp add: resolveLatest_def comp_def)

text \<open>
  C9. The dedup step is idempotent: applied to its own output it returns that output.
\<close>

theorem resolveLatest_idempotent:
  "resolveLatest (resolveLatest x) = resolveLatest x"
  by (rule resolveLatest_distinct_id[OF resolveLatest_distinct_keys])

theorem resolveLatest_idempotent_witness:
  "resolveLatest (resolveLatest [svc_old, svc_other, svc_new]) = [svc_new, svc_other]"
  using resolveLatest_idempotent[of "[svc_old, svc_other, svc_new]"]
  by (simp only: resolveLatest_example)

subsection \<open>Trust score: the worked example\<close>

lemma weight_of_table:
  "weight_of ''service-quality'' = Weight (3 / 2)"
  "weight_of ''identity-continuity'' = Weight 1"
  "weight_of ''general-trust'' = Weight (4 / 5)"
  "weight_of ''work-completed'' = Weight (6 / 5)"
  by (simp_all add: weight_of_def lookup_weight_def TRUST_WEIGHTS_def)

lemma attestation_type_attestation [simp]:
  "attestation_type (tags (attestation a t target)) = t"
  by (simp add: attestation_def tag_at_def)

lemma ev_pubkey_attestation [simp]: "ev_pubkey (attestation a t target) = a"
  by (simp add: attestation_def)

text \<open>
  C2. Four attestations by A (service-quality), B (general-trust), C (work-completed) and
  the target itself (service-quality), with A, B, C and the target pairwise distinct: the
  score is 35, three attesters are counted, and the target is not among them.
\<close>

theorem calculateTrustScore_example:
  assumes "distinct [A, B, C, target]"
    and "map ev_pubkey es = [A, B, C, target]"
    and "map (\<lambda>e. attestation_type (tags e)) es =
           [''service-quality'', ''general-trust'', ''work-completed'', ''service-quality'']"
  shows "score (calculateTrustScore es target) = Num 35 \<and>
         attesters (calculateTrustScore es target) = 3 \<and>
         map d_pubkey (details (calculateTrustScore es target)) = [A, B, C]"
proof -
  from assms(2) obtain e1 e2 e3 e4 where es: "es = [e1, e2, e3, e4]"
    by (auto simp: map_eq_Cons_conv)
  from assms es show ?thesis
    by (auto simp: calculateTrustScore_def attest_step_def sum_score_def weight_of_table Let_def
          js_gt_def floor_eq_iff)
qed

theorem calculateTrustScore_example_witness:
  "distinct [''a1'', ''a2'', ''a3'', ''tg''] \<and>
   score (calculateTrustScore
     [attestation ''a1'' ''service-quality'' ''tg'', attestation ''a2'' ''general-trust'' ''tg'',
      attestation ''a3'' ''work-completed'' ''tg'', attestation ''tg'' ''service-quality'' ''tg'']
     ''tg'') = Num 35"
  using calculateTrustScore_example[of "''a1''" "''a2''" "''a3''" "''tg''"
     "[attestation ''a1'' ''service-quality'' ''tg'', attestation ''a2'' ''general-trust'' ''tg'',
      attestation ''a3'' ''work-completed'' ''tg'', attestation ''tg'' ''service-quality'' ''tg'']"]
  by simp

subsection \<open>Merging by event id\<close>

lemma find_app:
  "find P (xs @ ys) = (case find P xs of None \<Rightarrow> find P ys | Some x \<Rightarrow> Some x)"
  by (induction xs) auto

lemma merge_inv_start: "merge_inv ({}, [])"
  by (simp add: merge_inv_def)

lemma merge_step_inv: "merge_inv st \<Longrightarrow> merge_inv (merge_step st e)"
  by (cases st) (auto simp: merge_inv_def)

lemma merge_foldl_inv: "merge_inv st \<Longrightarrow> merge_inv (foldl merge_step st xs)"
proof (induction xs arbitrary: st)
  case Nil
  then show ?case by simp
next
  case (Cons x xs)
  from Cons.IH[OF merge_step_inv[OF Cons.prems, of x]] show ?case
    by simp
qed

lemma merge_step_find:
  assumes "merge_inv st"
  shows "find (\<lambda>e. ev_id e = i) (snd (merge_step st x)) = find (\<lambda>e. ev_id e = i) (snd st @ [x])"
proof (cases st)
  case (Pair seen evs)
  show ?thesis
  proof (cases "ev_id x \<in> seen")
    case False
    with Pair show ?thesis by simp
  next
    case True
    with assms Pair obtain y where y: "y \<in> set evs" "ev_id y = ev_id x"
      by (auto simp: merge_inv_def)
    show ?thesis
    proof (cases "ev_id x = i")
      case same: True
      with y have "find (\<lambda>e. ev_id e = i) evs \<noteq> None"
        by (auto simp: find_None_iff)
      with True Pair show ?thesis
        by (auto simp: find_app split: option.splits)
    next
      case False
      with True Pair show ?thesis
        by (simp add: find_app split: option.splits)
    qed
  qed
qed

lemma merge_foldl_find:
  "merge_inv st \<Longrightarrow>
   find (\<lambda>e. ev_id e = i) (snd (foldl merge_step st xs)) = find (\<lambda>e. ev_id e = i) (snd st @ xs)"
proof (induction xs arbitrary: st)
  case Nil
  then show ?case by simp
next
  case (Cons x xs)
  have "find (\<lambda>e. ev_id e = i) (snd (foldl merge_step (merge_step st x) xs)) =
        find (\<lambda>e. ev_id e = i) (snd (merge_step st x) @ xs)"
    by (rule Cons.IH[OF merge_step_inv[OF Cons.prems]])
  also have "\<dots> = find (\<lambda>e. ev_id e = i) ((snd st @ [x]) @ xs)"
    by (simp only: find_app[of _ _ xs] merge_step_find[OF Cons.prems])
  finally show ?case by simp
qed

lemma ids_by_find: "i \<in> ev_id ` set xs \<longleftrightarrow> find (\<lambda>e. ev_id e = i) xs \<noteq> None"
  by (auto simp: find_None_iff)

lemma foldl_merge_result:
  "foldl merge_result st rs =
   foldl merge_step st
     (concat (map (\<lambda>r. case r of Fulfilled value \<Rightarrow> value | Rejected reason \<Rightarrow> []) rs))"
proof (induction rs arbitrary: st)
  case Nil
  then show ?case by simp
next
  case (Cons r rs)
  then show ?case by (cases r) simp_all
qed

lemma queryRelays_gathered:
  "queryRelays v f relays =
   snd (foldl merge_step ({}, []) (concat (map (returned v f) relays)))"
  by (simp add: queryRelays_def foldl_merge_result comp_def returned_def[abs_def])

lemma queryRelays_distinct: "distinct (map ev_id (queryRelays v f relays))"
  using merge_foldl_inv[OF merge_inv_start, of "concat (map (returned v f) relays)"]
  by (simp add: queryRelays_gathered merge_inv_def)

lemma queryRelays_find:
  "find (\<lambda>e. ev_id e = i) (queryRelays v f relays) =
   find (\<lambda>e. ev_id e = i) (concat (map (returned v f) relays))"
  using merge_foldl_find[OF merge_inv_start, of i "concat (map (returned v f) relays)"]
  by (simp add: queryRelays_gathered)

lemma queryRelays_ids:
  "ev_id ` set (queryRelays v f relays) = ev_id ` set (concat (map (returned v f) relays))"
proof -
  have "i \<in> ev_id ` set (queryRelays v f relays) \<longleftrightarrow>
        i \<in> ev_id ` set (concat (map (returned v f) relays))" for i
    by (simp only: ids_by_find queryRelays_find)
  then show ?thesis by blast
qed

lemma queryRelays_length:
  "length (queryRelays v f relays) = card (ev_id ` set (concat (map (returned v f) relays)))"
proof -
  have "length (queryRelays v f relays) = length (map ev_id (queryRelays v f relays))"
    by simp
  also have "\<dots> = card (set (map ev_id (queryRelays v f relays)))"
    by (rule distinct_card[OF queryRelays_distinct, symmetric])
  also have "\<dots> = card (ev_id ` set (concat (map (returned v f) relays)))"
    by (simp only: set_map queryRelays_ids)
  finally show ?thesis .
qed

lemma returned_unreachable: "\<not> opens r \<Longrightarrow> returned v f r = []"
  by (auto simp: returned_def queryRelay_def opens_def split: sum.splits)

lemma card_pairwise_disjoint:
  "pairwise_disjoint As \<Longrightarrow> \<forall>A\<in>set As. finite A \<Longrightarrow> card (\<Union> (set As)) = sum_list (map card As)"
proof (induction As)
  case Nil
  then show ?case by simp
next
  case (Cons A As)
  then have "card (A \<union> \<Union> (set As)) = card A + card (\<Union> (set As))"
    by (intro card_Un_disjoint) auto
  with Cons show ?case by simp
qed

lemma ids_gathered:
  "ev_id ` set (concat (map (returned v f) relays)) =
   \<Union> (set (map (\<lambda>r. ev_id ` set (returned v f r)) (filter opens relays)))"
proof (induction relays)
  case Nil
  then show ?case by simp
next
  case (Cons r rs)
  then show ?case
    by (cases "opens r") (auto simp: returned_unreachable image_Un)
qed

text \<open>
  C3. The merged result of \<open>queryRelays\<close> holds each event id at most once; for every id it
  holds the first event with that id in relay order (the later ones are dropped); and when
  the id sets returned by the relays that opened are pairwise disjoint, its length is the
  sum of the sizes of those id sets.
\<close>

theorem queryRelays_first_per_id:
  "distinct (map ev_id (queryRelays v f relays)) \<and>
   (\<forall>i. find (\<lambda>e. ev_id e = i) (queryRelays v f relays) =
        find (\<lambda>e. ev_id e = i) (concat (map (returned v f) relays))) \<and>
   (pairwise_disjoint (map (\<lambda>r. ev_id ` set (returned v f r)) (filter opens relays)) \<longrightarrow>
      length (queryRelays v f relays) =
      sum_list (map (\<lambda>r. card (ev_id ` set (returned v f r))) (filter opens relays)))"
proof -
  have "length (queryRelays v f relays) =
        sum_list (map (\<lambda>r. card (ev_id ` set (returned v f r))) (filter opens relays))"
    if disj: "pairwise_disjoint (map (\<lambda>r. ev_id ` set (returned v f r)) (filter opens relays))"
  proof -
    have "length (queryRelays v f relays) =
          card (\<Union> (set (map (\<lambda>r. ev_id ` set (returned v f r)) (filter opens relays))))"
      by (simp only: queryRelays_length ids_gathered)
    also have "\<dots> =
          sum_list (map card (map (\<lambda>r. ev_id ` set (returned v f r)) (filter opens relays)))"
      by (rule card_pairwise_disjoint[OF disj]) auto
    also have "\<dots> =
          sum_list (map (\<lambda>r. card (ev_id ` set (returned v f r))) (filter opens relays))"
      by (simp add: comp_def)
    finally show ?thesis .
  qed
  with queryRelays_distinct[of v f relays] queryRelays_find[of _ v f relays] show ?thesis
    by blast
qed

lemma returned_serving:
  "returned (\<lambda>e. True) f (relay_serving u es) = es"
proof -
  have "q_events (foldl (query_on (\<lambda>e. True) sid) st (map (\<lambda>e. Message (EVENT sid e)) es)) =
        q_events st @ es" for sid st
    by (induction es arbitrary: st) simp_all
  then show ?thesis
    by (simp add: returned_def queryRelay_def connectRelay_def relay_serving_def query_timer_def)
qed

lemma opens_examples:
  "opens (relay_serving u es)" "\<not> opens (relay_down u)"
  by (simp_all add: opens_def connectRelay_def relay_serving_def relay_down_def)

theorem queryRelays_first_per_id_witness:
  "pairwise_disjoint (map (\<lambda>r. ev_id ` set (returned (\<lambda>e. True) () r))
      (filter opens
         [relay_serving ''wss://a'' [sample_event ''e1'', sample_event ''e2''],
          relay_down ''wss://b'',
          relay_serving ''wss://c'' [sample_event ''e3'']])) \<and>
   length (queryRelays (\<lambda>e. True) ()
         [relay_serving ''wss://a'' [sample_event ''e1'', sample_event ''e2''],
          relay_down ''wss://b'',
          relay_serving ''wss://c'' [sample_event ''e3'']]) = 3"
  using queryRelays_first_per_id[of "\<lambda>e. True" "()"
         "[relay_serving ''wss://a'' [sample_event ''e1'', sample_event ''e2''],
          relay_down ''wss://b'',
          relay_serving ''wss://c'' [sample_event ''e3'']]"]
  by (simp add: opens_examples returned_serving sample_event_def)

lemma queryRelays_duplicate_example:
  "queryRelays (\<lambda>e. True) ()
     [relay_serving ''wss://a'' [sample_event ''e1'', sample_event ''e2''],
      relay_serving ''wss://c'' [sample_event ''e2'', sample_event ''e3'']] =
   [sample_event ''e1'', sample_event ''e2'', sample_event ''e3'']"
  by (simp add: queryRelays_gathered returned_serving sample_event_def)

subsection \<open>Unreachable relays\<close>

lemma queryRelay_unreachable: "\<not> opens r \<Longrightarrow> queryRelay v f r = Fulfilled []"
  by (auto simp: queryRelay_def opens_def split: sum.splits)

text \<open>
  C5. A relay whose connection attempt fails gives the empty array, not a rejection, and
  the merged result is the same as without that relay; when no relay of the list can be
  reached the result is the empty list.
\<close>

theorem queryRelays_unreachable:
  "(\<not> opens r \<longrightarrow>
      queryRelay v f r = Fulfilled [] \<and>
      queryRelays v f (rs @ r # rs') = queryRelays v f (rs @ rs')) \<and>
   ((\<forall>r\<in>set relays. \<not> opens r) \<longrightarrow> queryRelays v f relays = [])"
proof -
  have none: "queryRelays v f relays = []" if "\<forall>r\<in>set relays. \<not> opens r"
  proof -
    from that have "concat (map (returned v f) relays) = []"
      by (induction relays) (simp_all add: returned_unreachable)
    then show ?thesis
      by (simp only: queryRelays_gathered foldl_Nil snd_conv)
  qed
  have one: "queryRelays v f (rs @ r # rs') = queryRelays v f (rs @ rs')" if "\<not> opens r"
    by (simp add: queryRelays_gathered returned_unreachable[OF that])
  from none one queryRelay_unreachable[of r v f] show ?thesis
    by blast
qed

theorem queryRelays_unreachable_witness:
  "\<not> opens (relay_down ''wss://a'' :: (string \<times> unit) relay) \<and>
   queryRelay (\<lambda>e. True) () (relay_down ''wss://a'') = Fulfilled [] \<and>
   queryRelays (\<lambda>e. True) () [relay_down ''wss://a'', relay_down ''wss://b''] = [] \<and>
   queryRelays (\<lambda>e. True) ()
     ([relay_serving ''wss://c'' [sample_event ''e1'']] @ relay_down ''wss://a'' # []) =
   [sample_event ''e1'']"
  using queryRelays_unreachable[of "relay_down ''wss://a''" "\<lambda>e. True" "()"
     "[relay_serving ''wss://c'' [sample_event ''e1'']]" "[]"
     "[relay_down ''wss://a'', relay_down ''wss://b'']"]
  by (simp add: opens_examples queryRelays_gathered returned_serving)

subsection \<open>Publishing\<close>

lemma length_filter_reasons:
  "length (filter is_fulfilled rs) + length (reasons rs) = length rs"
  by (induction rs rule: reasons.induct) simp_all

lemma allSettled_length: "allSettled ps = Some rs \<Longrightarrow> length rs = length ps"
  by (induction ps arbitrary: rs rule: allSettled.induct) auto

lemma allSettled_None_iff: "allSettled ps = None \<longleftrightarrow> None \<in> set ps"
  by (induction ps rule: allSettled.induct) auto

text \<open>
  When \<open>publishToRelays\<close> returns, its \<open>total\<close> is the number of relays and every relay is
  counted once, as a success or as a failure reason; and it returns exactly when every
  relay's promise is settled.
\<close>

lemma publishToRelays_returned:
  assumes "publishToRelays event relays = Some out"
  shows "total out = length relays"
    and "successes out + length (failures out) = length relays"
proof -
  from assms obtain results where rs: "allSettled (map (publish_one event) relays) = Some results"
    and out: "out = \<lparr>successes = length (filter is_fulfilled results),
                     failures = reasons results, total = length relays\<rparr>"
    by (auto simp: publishToRelays_def split: option.splits)
  from out show "total out = length relays"
    by simp
  from out allSettled_length[OF rs] length_filter_reasons[of results]
  show "successes out + length (failures out) = length relays"
    by simp
qed

lemma publishToRelays_returns_iff:
  "publishToRelays event relays \<noteq> None \<longleftrightarrow> (\<forall>r\<in>set relays. publish_one event r \<noteq> None)"
proof -
  have "publishToRelays event relays = None \<longleftrightarrow>
        allSettled (map (publish_one event) relays) = None"
    by (simp add: publishToRelays_def split: option.splits)
  also have "\<dots> \<longleftrightarrow> (\<exists>r\<in>set relays. publish_one event r = None)"
    unfolding allSettled_None_iff by force
  finally show ?thesis
    by simp
qed

lemma settle_settled: "outcome st = Some x \<Longrightarrow> settle y st = st"
  by (simp add: settle_def)

lemma outcome_settle: "outcome (settle y st) \<noteq> None"
  by (simp add: settle_def split: option.splits)

lemma publish_on_settled: "outcome st = Some x \<Longrightarrow> outcome (publish_on u st e) = Some x"
proof (cases e)
  case (Message msg)
  assume "outcome st = Some x"
  with Message show ?thesis
    by (cases msg) (simp_all add: settle_def Let_def split: option.splits)
qed (simp_all add: settle_def)

lemma publish_foldl_settled:
  "outcome st = Some x \<Longrightarrow> outcome (foldl (publish_on u) st evs) = Some x"
  by (induction evs arbitrary: st) (simp_all add: publish_on_settled)

lemma publish_timer_settled: "outcome st = Some x \<Longrightarrow> outcome (publish_timer u st) = Some x"
  by (simp add: publish_timer_def settle_def)

lemma publish_on_ignored: "\<not> ok_or_error e \<Longrightarrow> publish_on u st e = st"
  by (cases "e" rule: ok_or_error.cases) simp_all

lemma publish_foldl_ignored:
  "\<forall>e\<in>set evs. \<not> ok_or_error e \<Longrightarrow> foldl (publish_on u) st evs = st"
  by (induction evs) (simp_all add: publish_on_ignored)

text \<open>
  Unless an \<open>OK\<close> message rejects with an unprintable reason, a pending promise keeps its
  timer armed, so every relay's promise is settled at last and \<open>publishToRelays\<close> returns.
\<close>

lemma publish_on_armed:
  assumes "outcome st = None \<longrightarrow> timer st" and "\<not> unprintable_reject e"
  shows "outcome (publish_on u st e) = None \<longrightarrow> timer (publish_on u st e)"
proof (cases e)
  case (Message msg)
  show ?thesis
  proof (cases msg)
    case (OK i accepted reason)
    with Message assms show ?thesis
      by (cases reason) (simp_all add: settle_def Let_def split: option.splits)
  qed (use Message assms in simp_all)
qed (use assms in \<open>simp_all add: settle_def split: option.splits\<close>)

lemma publish_foldl_armed:
  "outcome st = None \<longrightarrow> timer st \<Longrightarrow> \<forall>e\<in>set evs. \<not> unprintable_reject e \<Longrightarrow>
   outcome (foldl (publish_on u) st evs) = None \<longrightarrow> timer (foldl (publish_on u) st evs)"
proof (induction evs arbitrary: st)
  case Nil
  then show ?case by simp
next
  case (Cons e evs)
  from Cons.prems have "outcome (publish_on u st e) = None \<longrightarrow> timer (publish_on u st e)"
    by (intro publish_on_armed) simp_all
  from Cons.IH[OF this] Cons.prems(2) show ?case
    by simp
qed

lemma publish_one_settles:
  assumes "\<And>send_error inbound. dial r = DialOpen send_error inbound \<Longrightarrow>
             \<forall>e\<in>set (inbound event). \<not> unprintable_reject e"
  shows "publish_one event r \<noteq> None"
proof (cases "dial r")
  case (DialOpen send_error inbound)
  show ?thesis
  proof (cases send_error)
    case None
    let ?st = "foldl (publish_on (url r)) \<lparr>outcome = None, timer = True\<rparr> (inbound event)"
    have "outcome ?st = None \<longrightarrow> timer ?st"
      by (rule publish_foldl_armed) (use assms[OF DialOpen] in simp_all)
    then have "outcome (publish_timer (url r) ?st) \<noteq> None"
      by (cases "outcome ?st") (simp_all add: publish_timer_def settle_def)
    with DialOpen None show ?thesis
      by (simp add: publish_one_def connectRelay_def)
  next
    case (Some err)
    with DialOpen show ?thesis
      by (simp add: publish_one_def connectRelay_def)
  qed
qed (simp_all add: publish_one_def connectRelay_def)

lemma publishToRelays_example:
  "publishToRelays event
     [relay_accepting ''wss://a'', relay_rejecting ''wss://b'' ''duplicate'', relay_silent ''wss://c''] =
   Some \<lparr>successes = 1, failures = [''duplicate'', ''Publish to wss://c timed out''], total = 3\<rparr>"
  by (simp add: publishToRelays_def publish_one_def connectRelay_def publish_timer_def settle_def
      relay_accepting_def relay_rejecting_def relay_silent_def)

lemma publishToRelays_all_down:
  "publishToRelays event [relay_down ''wss://a'', relay_down ''wss://b''] =
   Some \<lparr>successes = 0, failures = [''connect ECONNREFUSED'', ''connect ECONNREFUSED''], total = 2\<rparr>"
  by (simp add: publishToRelays_def publish_one_def connectRelay_def relay_down_def)

text \<open>
  C6, at a failing input. Two relays, the first accepting the event; the second answers
  \<^verbatim>\<open>["OK", id, false, {"toString": 1}]\<close>. The listener clears the timer, \<^verbatim>\<open>new Error\<close> throws
  inside the \<^verbatim>\<open>try\<close>, and nothing is left to settle the second promise: \<open>publishToRelays\<close>
  never returns, where the claim says that it always returns an outcome whose total is 2.
\<close>

theorem publishToRelays_never_returns:
  "publish_one (sample_event ''e1'') (relay_accepting ''wss://a'') = Some (Fulfilled ''wss://a'') \<and>
   publish_one (sample_event ''e1'') (relay_unprintable ''wss://b'') = None \<and>
   publishToRelays (sample_event ''e1'')
     [relay_accepting ''wss://a'', relay_unprintable ''wss://b''] = None"
  by (simp add: publishToRelays_def publish_one_def connectRelay_def publish_timer_def settle_def
      relay_accepting_def relay_unprintable_def)

text \<open>
  C4, as the code has it. After a connection that opened and a send that did not throw, the
  first \<open>OK\<close> message that no error event precedes settles the relay's outcome, whatever
  event id it carries: fulfilled when its flag is truthy; rejected with the relay's reason,
  or with \<open>Rejected by relay\<close> when there is none, when the flag is falsy and the reason can
  be turned into a string. Messages other than \<open>OK\<close> do not settle it.
\<close>

theorem publish_one_first_ok:
  assumes "dial r = DialOpen None inbound"
    and "inbound event = before @ Message (OK i accepted reason) # after"
    and "\<forall>e\<in>set before. \<not> ok_or_error e"
    and "accepted \<or> reject_reason reason = Some text"
  shows "publish_one event r = Some (if accepted then Fulfilled (url r) else Rejected text)"
proof -
  let ?st0 = "\<lparr>outcome = None, timer = True\<rparr>"
  let ?res = "if accepted then Fulfilled (url r) else Rejected text"
  have "foldl (publish_on (url r)) ?st0 before = ?st0"
    by (rule publish_foldl_ignored[OF assms(3)])
  moreover have "outcome (publish_on (url r) ?st0 (Message (OK i accepted reason))) = Some ?res"
    using assms(4) by (auto simp: settle_def Let_def)
  ultimately have "outcome (foldl (publish_on (url r)) ?st0 (inbound event)) = Some ?res"
    by (simp add: assms(2) publish_foldl_settled)
  then have "outcome (publish_timer (url r) (foldl (publish_on (url r)) ?st0 (inbound event))) =
             Some ?res"
    by (rule publish_timer_settled)
  with assms(1) show ?thesis
    by (simp add: publish_one_def connectRelay_def)
qed

theorem publish_one_first_ok_witness:
  "\<not> ok_or_error (Message (NOTICE ''welcome'')) \<and>
   reject_reason (Text ''blocked'') = Some ''blocked'' \<and>
   publish_one (sample_event ''e1'') (relay_acking_other ''wss://a'' ''ffff'') =
     Some (Fulfilled ''wss://a'')"
proof -
  let ?inbound = "\<lambda>e :: event. [Message (NOTICE ''welcome''), Message (OK ''ffff'' True Missing)]"
  have 1: "dial (relay_acking_other ''wss://a'' ''ffff'') = DialOpen None ?inbound"
    by (simp add: relay_acking_other_def)
  have 2: "?inbound (sample_event ''e1'') =
           [Message (NOTICE ''welcome'')] @ Message (OK ''ffff'' True Missing) # []"
    by simp
  have 3: "\<forall>e\<in>set [Message (NOTICE ''welcome'')]. \<not> ok_or_error e"
    by simp
  have 4: "True \<or> reject_reason Missing = Some ''Rejected by relay''"
    by simp
  have "publish_one (sample_event ''e1'') (relay_acking_other ''wss://a'' ''ffff'') =
        Some (if True then Fulfilled (url (relay_acking_other ''wss://a'' ''ffff''))
              else Rejected ''Rejected by relay'')"
    by (rule publish_one_first_ok[OF 1 2 3 4])
  then show ?thesis
    by (simp add: relay_acking_other_def)
qed

text \<open>
  C4, as stated, fails: a relay that acknowledges an event with another id resolves the
  publish of this event, as a success.
\<close>

theorem publish_one_uncorrelated_ok:
  "ev_id (sample_event ''e1'') \<noteq> ''ffff'' \<and>
   publish_one (sample_event ''e1'') (relay_acking_other ''wss://a'' ''ffff'') =
     Some (Fulfilled ''wss://a'') \<and>
   publishToRelays (sample_event ''e1'') [relay_acking_other ''wss://a'' ''ffff''] =
     Some \<lparr>successes = 1, failures = [], total = 1\<rparr>"
  by (simp add: publishToRelays_def publish_one_def connectRelay_def publish_timer_def settle_def
      relay_acking_other_def sample_event_def)

subsection \<open>Trust enrichment\<close>

lemma uniq_foldl_set:
  "set (foldl (\<lambda>acc x. if x \<in> set acc then acc else acc @ [x]) acc xs) = set acc \<union> set xs"
  by (induction xs arbitrary: acc) auto

lemma set_uniq: "set (uniq xs) = set xs"
  by (simp add: uniq_def uniq_foldl_set)

lemma trust_task_map_of:
  "map_of (trust_task fetch m p) pk =
     (case fetch p of
        Fulfilled attestations \<Rightarrow>
          if pk = p then Some (calculateTrustScore attestations p) else map_of m pk
      | Rejected reason \<Rightarrow> map_of m pk)"
  by (simp add: trust_task_def AList.update_conv' split: settled.splits)

lemma trust_task_lookup:
  "map_of (foldl (trust_task fetch) m pks) pk =
     (if pk \<in> set pks
      then (case fetch pk of
              Fulfilled attestations \<Rightarrow> Some (calculateTrustScore attestations pk)
            | Rejected reason \<Rightarrow> map_of m pk)
      else map_of m pk)"
proof (induction pks arbitrary: m)
  case Nil
  then show ?case by simp
next
  case (Cons p pks)
  show ?case
    by (simp add: Cons.IH trust_task_map_of split: settled.splits)
qed

lemma calculateTrustScore_Nil: "calculateTrustScore [] pk = zero_trust"
  by (simp add: calculateTrustScore_def zero_trust_def sum_score_def floor_eq_iff)

lemma enrich_settled_entry:
  assumes "x \<in> set (enrich_settled fetch services)"
  shows "base x \<in> set services \<and>
         trust x = (case fetch (pubkey (base x)) of
                      Fulfilled attestations \<Rightarrow> calculateTrustScore attestations (pubkey (base x))
                    | Rejected reason \<Rightarrow> zero_trust) \<and>
         trustScore x = score (trust x)"
proof -
  from assms obtain s where s: "s \<in> set services"
    and x: "x = (let t = (case map_of (foldl (trust_task fetch) [] (uniq (map pubkey services)))
                              (pubkey s) of Some found \<Rightarrow> found | None \<Rightarrow> zero_trust)
                 in \<lparr>base = s, trust = t, trustScore = score t\<rparr>)"
    by (auto simp: enrich_settled_def Let_def)
  from s have "pubkey s \<in> set (uniq (map pubkey services))"
    by (simp add: set_uniq)
  with x s show ?thesis
    by (simp add: trust_task_lookup Let_def split: settled.splits)
qed

lemma fetchAttestations_unreachable:
  "\<forall>r\<in>set relays. \<not> opens r \<Longrightarrow> fetchAttestations v pk relays = []"
proof -
  assume "\<forall>r\<in>set relays. \<not> opens r"
  then have "concat (map (returned v f) relays) = []" for f
    by (induction relays) (simp_all add: returned_unreachable)
  then have "queryRelays v f relays = []" for f
    by (simp only: queryRelays_gathered foldl_Nil snd_conv)
  then show ?thesis
    by (simp add: fetchAttestations_def)
qed

text \<open>
  C7. Every input service appears in the output, in order, with a trust score attached.
  The score is the zero score for every service whose owner's relays could all not be
  reached, and also, whatever the fetch is, for every owner whose fetch promise is rejected
  (no entry in the map).
\<close>

theorem enrichWithTrust_total:
  "map base (enrichWithTrust v net services) = services \<and>
   (\<forall>x\<in>set (enrichWithTrust v net services).
      trustScore x = score (trust x) \<and>
      ((\<forall>r\<in>set (net (pubkey (base x))). \<not> opens r) \<longrightarrow> trust x = zero_trust)) \<and>
   map base (enrich_settled fetch services) = services \<and>
   (\<forall>x\<in>set (enrich_settled fetch services).
      fetch (pubkey (base x)) = Rejected reason \<longrightarrow> trust x = zero_trust)"
proof -
  have 1: "map base (enrich_settled g services) = services" for g
    by (simp add: enrich_settled_def Let_def comp_def)
  have 2: "trustScore x = score (trust x) \<and>
           ((\<forall>r\<in>set (net (pubkey (base x))). \<not> opens r) \<longrightarrow> trust x = zero_trust)"
    if "x \<in> set (enrichWithTrust v net services)" for x
    using enrich_settled_entry[OF that[unfolded enrichWithTrust_def]]
    by (auto simp: fetchAttestations_unreachable calculateTrustScore_Nil)
  have 3: "trust x = zero_trust"
    if "x \<in> set (enrich_settled fetch services)" "fetch (pubkey (base x)) = Rejected reason" for x
    using enrich_settled_entry[OF that(1)] that(2) by simp
  from 1[of fetch] 1[of "\<lambda>pk. Fulfilled (fetchAttestations v pk (net pk))"] 2 3 show ?thesis
    unfolding enrichWithTrust_def[symmetric] by (simp add: enrichWithTrust_def)
qed

lemma enrichWithTrust_example:
  "enrichWithTrust (\<lambda>e. True) example_net [svc_old, svc_other] =
     [\<lparr>base = svc_old, trust = zero_trust, trustScore = Num 0\<rparr>,
      \<lparr>base = svc_other,
       trust = \<lparr>score = Num 15, attesters = 1,
                details = [\<lparr>d_pubkey = ''a1'', d_type = ''service-quality'',
                            d_weight = Weight (3 / 2)\<rparr>]\<rparr>,
       trustScore = Num 15\<rparr>]"
proof -
  have a: "fetchAttestations (\<lambda>e. True) ''pk1'' (example_net ''pk1'') = []"
    by (simp add: fetchAttestations_unreachable example_net_def opens_examples)
  have b: "fetchAttestations (\<lambda>e. True) ''pk2'' (example_net ''pk2'') =
           [attestation ''a1'' ''service-quality'' ''pk2'']"
    by (simp add: fetchAttestations_def example_net_def queryRelays_gathered
        returned_serving returned_unreachable opens_examples)
  have c: "calculateTrustScore [attestation ''a1'' ''service-quality'' ''pk2''] ''pk2'' =
           \<lparr>score = Num 15, attesters = 1,
            details = [\<lparr>d_pubkey = ''a1'', d_type = ''service-quality'',
                        d_weight = Weight (3 / 2)\<rparr>]\<rparr>"
    by (simp add: calculateTrustScore_def attest_step_def sum_score_def weight_of_table
        floor_eq_iff Let_def)
  have d: "uniq [''pk1'', ''pk2''] = [''pk1'', ''pk2'']"
    by (simp add: uniq_def)
  have e: "pubkey svc_old = ''pk1''" "pubkey svc_other = ''pk2''"
    by (simp_all add: svc_old_def svc_other_def)
  show ?thesis
    by (simp add: enrichWithTrust_def enrich_settled_def d e trust_task_def a b c
        calculateTrustScore_Nil zero_trust_def Let_def)
qed

theorem enrichWithTrust_total_witness:
  "\<not> opens (relay_down ''wss://a'' :: query_relay) \<and>
   map base (enrichWithTrust (\<lambda>e. True) example_net [svc_old, svc_other]) = [svc_old, svc_other] \<and>
   trust (hd (enrichWithTrust (\<lambda>e. True) example_net [svc_old, svc_other])) = zero_trust \<and>
   score (trust (last (enrichWithTrust (\<lambda>e. True) example_net [svc_old, svc_other]))) = Num 15"
proof -
  let ?out = "enrichWithTrust (\<lambda>e. True) example_net [svc_old, svc_other]"
  note inst = enrichWithTrust_total[of "\<lambda>e. True" example_net "[svc_old, svc_other]"
      "\<lambda>pk. Rejected []" "[]"]
  have mem: "hd ?out \<in> set ?out"
    by (simp add: enrichWithTrust_example)
  have owner: "pubkey (base (hd ?out)) = ''pk1''"
    by (simp add: enrichWithTrust_example, simp add: svc_old_def)
  have down: "\<forall>r\<in>set (example_net (pubkey (base (hd ?out)))). \<not> opens r"
    by (simp add: owner example_net_def opens_examples)
  from inst mem down have "trust (hd ?out) = zero_trust"
    by blast
  moreover from inst have "map base ?out = [svc_old, svc_other]"
    by blast
  ultimately show ?thesis
    by (simp add: opens_examples enrichWithTrust_example)
qed

subsection \<open>Trust score over plain claim types\<close>

lemma weight_of_plain: "plain_type t \<Longrightarrow> weight_of t = Weight (table_weight t)"
  by (simp add: weight_of_def lookup_weight_def table_weight_def plain_type_def
      split: option.splits)

lemma att_inv_Nil: "att_inv target [] []"
  by (simp add: att_inv_def)

lemma att_inv_step:
  assumes inv: "att_inv target seen m"
    and plain: "plain_type (attestation_type (tags e))"
  shows "att_inv target (seen @ [e]) (attest_step target m e)"
proof -
  let ?t = "attestation_type (tags e)"
  let ?entry = "\<lparr>weight = Weight (table_weight ?t), atype = ?t, att_createdAt = created_at e\<rparr>"
  let ?P = "\<lambda>seen m k. case map_of m k of
            None \<Rightarrow> (\<forall>e\<in>set seen. ev_pubkey e = k \<longrightarrow> k = target)
          | Some b \<Rightarrow>
              k \<noteq> target \<and> weight b = Weight (table_weight (atype b)) \<and>
              (\<exists>e\<in>set seen. ev_pubkey e = k \<and> attestation_type (tags e) = atype b) \<and>
              (\<forall>e\<in>set seen. ev_pubkey e = k \<longrightarrow>
                 table_weight (attestation_type (tags e)) \<le> table_weight (atype b))"
  from inv have d: "distinct (map fst m)" and i: "\<And>k. ?P seen m k"
    by (auto simp: att_inv_def)
  have d': "distinct (map fst (attest_step target m e))"
    using d by (auto simp: attest_step_def Let_def AList.distinct_update split: option.splits)
  have "?P (seen @ [e]) (attest_step target m e) k" for k
  proof (cases "ev_pubkey e = target")
    case True
    then have same: "attest_step target m e = m"
      by (simp add: attest_step_def)
    from i[of k] True show ?thesis
      unfolding same by (auto split: option.splits)
  next
    case other: False
    show ?thesis
    proof (cases "k = ev_pubkey e")
      case False
      then have "map_of (attest_step target m e) k = map_of m k"
        by (auto simp: attest_step_def Let_def AList.update_conv' split: option.splits)
      with i[of k] False show ?thesis
        by (auto split: option.splits)
    next
      case True
      show ?thesis
      proof (cases "map_of m k")
        case None
        with True other have "map_of (attest_step target m e) k = Some ?entry"
          by (simp add: attest_step_def Let_def AList.update_conv' weight_of_plain[OF plain])
        with i[of k] None True other show ?thesis
          by auto
      next
        case (Some ex)
        with i[of k] have wex: "weight ex = Weight (table_weight (atype ex))"
          by simp
        show ?thesis
        proof (cases "table_weight (atype ex) < table_weight ?t")
          case heavier: True
          with True other Some wex have "map_of (attest_step target m e) k = Some ?entry"
            by (simp add: attest_step_def Let_def AList.update_conv' weight_of_plain[OF plain]
                js_gt_def)
          with i[of k] Some True other heavier show ?thesis
            by fastforce
        next
          case lighter: False
          with True other Some wex have "map_of (attest_step target m e) k = Some ex"
            by (simp add: attest_step_def Let_def weight_of_plain[OF plain] js_gt_def)
          with i[of k] Some True other lighter show ?thesis
            by fastforce
        qed
      qed
    qed
  qed
  with d' show ?thesis
    by (simp add: att_inv_def)
qed

lemma att_inv_foldl:
  "att_inv target seen m \<Longrightarrow> \<forall>e\<in>set es. plain_type (attestation_type (tags e)) \<Longrightarrow>
   att_inv target (seen @ es) (foldl (attest_step target) m es)"
proof (induction es arbitrary: seen m)
  case Nil
  then show ?case by simp
next
  case (Cons e es)
  from Cons.prems have "att_inv target (seen @ [e]) (attest_step target m e)"
    by (intro att_inv_step) simp_all
  from Cons.IH[OF this] Cons.prems(2) show ?case
    by simp
qed

lemma att_inv_final:
  "\<forall>e\<in>set es. plain_type (attestation_type (tags e)) \<Longrightarrow>
   att_inv target es (foldl (attest_step target) [] es)"
  using att_inv_foldl[OF att_inv_Nil, of es target] by simp

lemma att_inv_at:
  "att_inv target seen m \<Longrightarrow>
   (case map_of m k of
      None \<Rightarrow> (\<forall>e\<in>set seen. ev_pubkey e = k \<longrightarrow> k = target)
    | Some b \<Rightarrow>
        k \<noteq> target \<and> weight b = Weight (table_weight (atype b)) \<and>
        (\<exists>e\<in>set seen. ev_pubkey e = k \<and> attestation_type (tags e) = atype b) \<and>
        (\<forall>e\<in>set seen. ev_pubkey e = k \<longrightarrow>
           table_weight (attestation_type (tags e)) \<le> table_weight (atype b)))"
  by (simp add: att_inv_def)

lemma att_inv_entry:
  assumes "att_inv target seen m" and "map_of m a = Some b"
  shows "a \<noteq> target" and "weight b = Weight (best_weight seen a)"
proof -
  let ?f = "\<lambda>e. table_weight (attestation_type (tags e))"
  let ?S = "{e \<in> set seen. ev_pubkey e = a}"
  from assms have P: "a \<noteq> target \<and> weight b = Weight (table_weight (atype b)) \<and>
      (\<exists>e\<in>set seen. ev_pubkey e = a \<and> attestation_type (tags e) = atype b) \<and>
      (\<forall>e\<in>set seen. ev_pubkey e = a \<longrightarrow> ?f e \<le> table_weight (atype b))"
    using att_inv_at[of target seen m a] by simp
  then show "a \<noteq> target" by simp
  from P have "table_weight (atype b) \<in> ?f ` ?S"
    by force
  moreover from P have "y \<le> table_weight (atype b)" if "y \<in> ?f ` ?S" for y
    using that by auto
  ultimately have "Max (?f ` ?S) = table_weight (atype b)"
    by (intro Max_eqI) auto
  with P show "weight b = Weight (best_weight seen a)"
    by (simp add: best_weight_def)
qed

lemma att_inv_dom:
  assumes "att_inv target seen m"
  shows "fst ` set m = ev_pubkey ` set seen - {target}"
proof -
  have "k \<in> fst ` set m \<longleftrightarrow> k \<in> ev_pubkey ` set seen - {target}" for k
  proof (cases "map_of m k")
    case None
    with att_inv_at[OF assms, of k] have "\<forall>e\<in>set seen. ev_pubkey e = k \<longrightarrow> k = target"
      by simp
    with None show ?thesis
      by (auto simp: map_of_eq_None_iff)
  next
    case (Some b)
    with att_inv_at[OF assms, of k] have "k \<noteq> target" "\<exists>e\<in>set seen. ev_pubkey e = k"
      by auto
    moreover from Some have "k \<in> fst ` set m"
      by (force dest: map_of_SomeD)
    ultimately show ?thesis by auto
  qed
  then show ?thesis by blast
qed

lemma filter_key_distinct:
  "distinct (map fst m) \<Longrightarrow> map_of m a = Some b \<Longrightarrow> filter (\<lambda>p. fst p = a) m = [(a, b)]"
proof (induction m)
  case Nil
  then show ?case by simp
next
  case (Cons p m)
  show ?case
  proof (cases "fst p = a")
    case True
    with Cons.prems have "p = (a, b)" and "a \<notin> fst ` set m"
      by (auto simp: prod_eq_iff)
    then have "filter (\<lambda>p. fst p = a) m = []"
      by (auto simp: filter_empty_conv)
    with \<open>p = (a, b)\<close> show ?thesis by simp
  next
    case False
    with Cons show ?thesis by auto
  qed
qed

text \<open>
  Over attestations with plain claim types, the intent of C8 holds: for every attester
  other than the target there is exactly one detail entry, and its weight is the greatest
  table weight among that attester's attestations, wherever they stand in the list.
\<close>

lemma plain_retained_weight_max:
  assumes plain: "\<forall>e\<in>set es. plain_type (attestation_type (tags e))"
    and a: "a \<noteq> target" "a \<in> ev_pubkey ` set es"
  shows "map d_weight (filter (\<lambda>d. d_pubkey d = a) (details (calculateTrustScore es target))) =
         [Weight (best_weight es a)]"
proof -
  let ?m = "foldl (attest_step target) [] es"
  let ?h = "\<lambda>(pk, att). \<lparr>d_pubkey = pk, d_type = atype att, d_weight = weight att\<rparr>"
  have inv: "att_inv target es ?m"
    by (rule att_inv_final[OF plain])
  from a att_inv_dom[OF inv] have "a \<in> fst ` set ?m"
    by simp
  then obtain b where b: "map_of ?m a = Some b"
    by (metis map_of_eq_None_iff not_Some_eq)
  from inv have "distinct (map fst ?m)"
    by (simp add: att_inv_def)
  from filter_key_distinct[OF this b] have "filter (\<lambda>p. fst p = a) ?m = [(a, b)]" .
  moreover have "filter (\<lambda>d. d_pubkey d = a) (map ?h ?m) = map ?h (filter (\<lambda>p. fst p = a) ?m)"
    by (simp add: filter_map comp_def case_prod_unfold)
  ultimately show ?thesis
    using att_inv_entry(2)[OF inv b] by (simp add: calculateTrustScore_def Let_def)
qed

lemma sum_score_foldl:
  "\<forall>p\<in>set m. weight (snd p) = Weight (g (fst p)) \<Longrightarrow>
   foldl (\<lambda>score (pk, att). js_add score (js_mul (toNumber (weight att)) (Num 10))) (Num acc) m =
   Num (acc + sum_list (map (\<lambda>k. g k * 10) (map fst m)))"
proof (induction m arbitrary: acc)
  case Nil
  then show ?case by simp
next
  case (Cons p m)
  obtain k b where p: "p = (k, b)"
    by (cases p)
  from Cons.prems p have w: "weight b = Weight (g k)"
    by simp
  from Cons.prems have "\<forall>p\<in>set m. weight (snd p) = Weight (g (fst p))"
    by simp
  from Cons.IH[OF this, of "acc + g k * 10"] p w show ?case
    by (simp add: add.assoc)
qed

text \<open>
  Over attestations with plain claim types the score and the attester count are functions
  of the set of attestations, hence the same for every reordering of the list: the intent
  of C10.
\<close>

lemma plain_score_by_set:
  assumes plain: "\<forall>e\<in>set es. plain_type (attestation_type (tags e))"
  shows "score (calculateTrustScore es target) =
           Num (of_int \<lfloor>(\<Sum>a\<in>ev_pubkey ` set es - {target}. best_weight es a * 10) + 1 / 2\<rfloor>)"
    and "attesters (calculateTrustScore es target) = card (ev_pubkey ` set es - {target})"
proof -
  let ?m = "foldl (attest_step target) [] es"
  have inv: "att_inv target es ?m"
    by (rule att_inv_final[OF plain])
  then have d: "distinct (map fst ?m)"
    by (simp add: att_inv_def)
  have dom: "set (map fst ?m) = ev_pubkey ` set es - {target}"
    using att_inv_dom[OF inv] by simp
  have "weight (snd p) = Weight (best_weight es (fst p))" if "p \<in> set ?m" for p
  proof -
    from that d have "map_of ?m (fst p) = Some (snd p)"
      by simp
    from att_inv_entry(2)[OF inv this] show ?thesis .
  qed
  then have "sum_score ?m = Num (0 + sum_list (map (\<lambda>k. best_weight es k * 10) (map fst ?m)))"
    unfolding sum_score_def by (intro sum_score_foldl) simp
  also have "sum_list (map (\<lambda>k. best_weight es k * 10) (map fst ?m)) =
             (\<Sum>a\<in>set (map fst ?m). best_weight es a * 10)"
    by (rule sum_list_distinct_conv_sum_set[OF d])
  finally show "score (calculateTrustScore es target) =
           Num (of_int \<lfloor>(\<Sum>a\<in>ev_pubkey ` set es - {target}. best_weight es a * 10) + 1 / 2\<rfloor>)"
    using dom by (simp add: calculateTrustScore_def Let_def)
  from distinct_card[OF d] dom
  show "attesters (calculateTrustScore es target) = card (ev_pubkey ` set es - {target})"
    by (simp add: calculateTrustScore_def Let_def)
qed

lemma plain_score_reordered:
  assumes "\<forall>e\<in>set es. plain_type (attestation_type (tags e))" and "set es' = set es"
  shows "score (calculateTrustScore es' target) = score (calculateTrustScore es target)"
    and "attesters (calculateTrustScore es' target) = attesters (calculateTrustScore es target)"
proof -
  from assms have plain': "\<forall>e\<in>set es'. plain_type (attestation_type (tags e))"
    by simp
  from assms(2) have "best_weight es' = best_weight es"
    by (simp add: best_weight_def fun_eq_iff)
  with assms(2) plain_score_by_set[OF assms(1), of target] plain_score_by_set[OF plain', of target]
  show "score (calculateTrustScore es' target) = score (calculateTrustScore es target)"
    and "attesters (calculateTrustScore es' target) = attesters (calculateTrustScore es target)"
    by simp_all
qed

subsection \<open>Claim types that name a member of \<^verbatim>\<open>Object.prototype\<close>\<close>

lemma weight_of_constructor: "weight_of ''constructor'' = Inherited ''constructor''"
  by (simp add: weight_of_def lookup_weight_def TRUST_WEIGHTS_def Object_prototype_def)

lemma js_gt_examples:
  "js_gt (Weight (3 / 2)) (Weight (4 / 5))"
  "\<not> js_gt (Weight (4 / 5)) (Weight (4 / 5))"
  "\<not> js_gt (Weight (3 / 2)) (Inherited ''constructor'')"
  "\<not> js_gt (Inherited ''constructor'') (Weight (3 / 2))"
  "js_gt (Inherited ''toString'') (Inherited ''constructor'')"
  by (simp_all add: js_gt_def)

text \<open>
  C8, at a failing input. The attester \<open>a1\<close> attests twice about \<open>tg\<close>: first with the claim
  type \<open>constructor\<close>, then with \<open>service-quality\<close>. The weight retained for \<open>a1\<close> is the
  function \<^verbatim>\<open>Object\<close> found on the prototype, not 1.5, the greatest weight of the two
  attestations (an unknown type weighs 0.8), and the score is NaN.
\<close>

theorem calculateTrustScore_inherited_weight:
  "calculateTrustScore
     [attestation ''a1'' ''constructor'' ''tg'', attestation ''a1'' ''service-quality'' ''tg'']
     ''tg'' =
   \<lparr>score = NaN, attesters = 1,
    details = [\<lparr>d_pubkey = ''a1'', d_type = ''constructor'',
                d_weight = Inherited ''constructor''\<rparr>]\<rparr>"
  by (simp add: calculateTrustScore_def attest_step_def sum_score_def weight_of_table
      weight_of_constructor js_gt_def Let_def)

text \<open>
  C10, at a failing input. The same two attestations in the two orders: the score is NaN
  in one order and 15 in the other; the number of attesters is 1 in both.
\<close>

theorem calculateTrustScore_order_dependent:
  "score (calculateTrustScore
     [attestation ''a1'' ''constructor'' ''tg'', attestation ''a1'' ''service-quality'' ''tg'']
     ''tg'') = NaN \<and>
   score (calculateTrustScore
     [attestation ''a1'' ''service-quality'' ''tg'', attestation ''a1'' ''constructor'' ''tg'']
     ''tg'') = Num 15 \<and>
   attesters (calculateTrustScore
     [attestation ''a1'' ''constructor'' ''tg'', attestation ''a1'' ''service-quality'' ''tg'']
     ''tg'') = 1 \<and>
   attesters (calculateTrustScore
     [attestation ''a1'' ''service-quality'' ''tg'', attestation ''a1'' ''constructor'' ''tg'']
     ''tg'') = 1"
  by (simp add: calculateTrustScore_def attest_step_def sum_score_def weight_of_table
      weight_of_constructor js_gt_def Let_def floor_eq_iff)

end
